theory Spec2Isabelle
  imports Complex_Main "HOL-Library.Multiset"
begin

section \<open>The bounded-concurrency task queue (eventQueue.ts)\<close>

text \<open>
  The class \<open>EventQueue<T>\<close> keeps two arrays (\<open>eventQueue\<close>, the pending tasks, and
  \<open>activeTasks\<close>), two flags and an emitter. Its methods mutate these fields; here every
  method takes the queue and returns the updated queue.

  What the class does to the outside world is kept in the state as well:
  \<^item> \<open>setTimeout(() => this.queueLoop())\<close> adds one to \<open>timers\<close>, the number of callbacks
    waiting in the host's task queue; the host running one of them is \<open>timeout_fires\<close>;
  \<^item> \<open>_onTaskActivation.fire({tasks: this.activeTasks})\<close> appends the active list, as it is
    at that moment, to \<open>fired\<close>;
  \<^item> each logger call appends its severity and message to \<open>logged\<close>.

  The static field \<open>EventQueue.MAX_CONCURRENCY\<close> is a component of the state, since the
  development follows one queue. It is a TypeScript \<open>number\<close>, and
  \<open>changeConcurrency\<close> stores whatever number it is given: the limit is a real number, which
  may be negative or no integer (NaN and the infinities are not followed).
\<close>

datatype severity = Info | Error

record 'a event_queue =
  MAX_CONCURRENCY :: real
  eventQueue :: "'a list"
  activeTasks :: "'a list"
  isDispatching :: bool
  isLoopScheduled :: bool
  listeners :: nat
  timers :: nat
  fired :: "'a list list"
  logged :: "(severity \<times> string) list"

text \<open>
  Modelled from the spec: the class \<open>Emitter\<close> (imported from \<open>'../../event'\<close>) is not among
  the sources. Only three of its operations are used: subscribing through \<open>event\<close>,
  \<open>hasListeners()\<close> and \<open>dispose()\<close>, which by the specification "detaches all listeners".
  The emitter is the number of attached listeners.
\<close>

definition hasListeners :: "'a event_queue \<Rightarrow> bool" where
  "hasListeners q = (0 < listeners q)"

definition onTaskActivation :: "'a event_queue \<Rightarrow> 'a event_queue" where
  "onTaskActivation q = q\<lparr>listeners := Suc (listeners q)\<rparr>"

definition dispose :: "'a event_queue \<Rightarrow> 'a event_queue" where
  "dispose q = q\<lparr>listeners := 0\<rparr>"

text \<open>The constructor, in a process where the static limit still has its initial value.\<close>

definition new_EventQueue :: "'a event_queue" where
  "new_EventQueue =
     \<lparr>MAX_CONCURRENCY = 5, eventQueue = [], activeTasks = [], isDispatching = False,
      isLoopScheduled = False, listeners = 0, timers = 0, fired = [],
      logged = [(Info, ''EventQueue created'')]\<rparr>"

definition changeConcurrency :: "real \<Rightarrow> 'a event_queue \<Rightarrow> 'a event_queue" where
  "changeConcurrency v q = q\<lparr>MAX_CONCURRENCY := v\<rparr>"

definition enqueue :: "'a \<Rightarrow> 'a event_queue \<Rightarrow> 'a event_queue" where
  "enqueue task q =
     (let q1 = q\<lparr>logged := logged q @ [(Info, ''enqueue'')]\<rparr>;
          q2 = q1\<lparr>eventQueue := eventQueue q1 @ [task]\<rparr>
      in if isDispatching q2 = False
         then q2\<lparr>isDispatching := True, timers := Suc (timers q2)\<rparr>
         else q2)"

text \<open>
  The \<open>while\<close> loop of \<open>queueLoop\<close>: \<open>shift()\<close> takes the head of the pending list,
  \<open>push\<close> appends it to the active list. The result is the pair (active, pending).
\<close>

fun queueLoop_while :: "real \<Rightarrow> 'a list \<Rightarrow> 'a list \<Rightarrow> 'a list \<times> 'a list" where
  "queueLoop_while m active [] = (active, [])"
| "queueLoop_while m active (task # pending) =
     (if real (length active) < m
      then queueLoop_while m (active @ [task]) pending
      else (active, task # pending))"

definition fireActiveTask :: "'a event_queue \<Rightarrow> 'a event_queue" where
  "fireActiveTask q =
     (if hasListeners q
      then q\<lparr>fired := fired q @ [activeTasks q]\<rparr>
      else q\<lparr>logged := logged q @
             [(Error, ''Severity error !!!!!! No listener for active task, task will be completed'')]\<rparr>)"

definition queueLoop :: "'a event_queue \<Rightarrow> 'a event_queue" where
  "queueLoop q =
     (if isLoopScheduled q then q
      else
        let q1 = q\<lparr>isLoopScheduled := True\<rparr>;
            r = queueLoop_while (MAX_CONCURRENCY q1) (activeTasks q1) (eventQueue q1);
            q2 = q1\<lparr>activeTasks := fst r, eventQueue := snd r\<rparr>;
            q3 = fireActiveTask q2
        in q3\<lparr>isLoopScheduled := False\<rparr>)"

text \<open>\<open>Array.prototype.findIndex\<close>: the first index whose element satisfies the predicate, or -1.\<close>

fun findIndex :: "('a \<Rightarrow> bool) \<Rightarrow> 'a list \<Rightarrow> int" where
  "findIndex p [] = - 1"
| "findIndex p (x # xs) =
     (if p x then 0
      else if findIndex p xs > - 1 then findIndex p xs + 1 else - 1)"

text \<open>\<open>xs.splice(idx, 1)\<close> for an index that \<open>findIndex\<close> returned.\<close>

definition splice1 :: "nat \<Rightarrow> 'a list \<Rightarrow> 'a list" where
  "splice1 idx xs = take idx xs @ drop (Suc idx) xs"

text \<open>
  \<open>completeTask\<close>; the parameter \<open>flt\<close> is \<open>options.filter\<close>, fixed by the constructor.
\<close>

definition completeTask :: "('b \<Rightarrow> 'a \<Rightarrow> bool) \<Rightarrow> 'b \<Rightarrow> 'a event_queue \<Rightarrow> 'a event_queue" where
  "completeTask flt item q =
     (let idx = findIndex (flt item) (activeTasks q);
          q1 = (if idx > - 1
                then q\<lparr>activeTasks := splice1 (nat idx) (activeTasks q),
                       logged := logged q @ [(Info, ''task completed:'')]\<rparr>
                else q\<lparr>logged := logged q @ [(Error, ''task not found:'')]\<rparr>)
      in if length (activeTasks q1) = 0
         then let q2 = q1\<lparr>isDispatching := False\<rparr>
              in if length (eventQueue q2) > 0 then q2\<lparr>timers := Suc (timers q2)\<rparr> else q2
         else q1)"

definition reActivation :: "'a event_queue \<Rightarrow> 'a event_queue" where
  "reActivation q = fireActiveTask q"

definition destroy :: "'a event_queue \<Rightarrow> 'a event_queue" where
  "destroy q =
     dispose (q\<lparr>logged := logged q @ [(Info, ''destroy'')],
               eventQueue := [], activeTasks := []\<rparr>)"

text \<open>The host runs one waiting \<open>setTimeout\<close> callback, if there is one.\<close>

definition timeout_fires :: "'a event_queue \<Rightarrow> 'a event_queue" where
  "timeout_fires q =
     (if timers q = 0 then q else queueLoop (q\<lparr>timers := timers q - 1\<rparr>))"

text \<open>What can happen to a queue, one after the other (JavaScript runs them one at a time).\<close>

datatype ('a, 'b) call =
    Enqueue 'a
  | CompleteTask 'b
  | ReActivation
  | Destroy
  | ChangeConcurrency real
  | Subscribe
  | TimeoutFires

fun step :: "('b \<Rightarrow> 'a \<Rightarrow> bool) \<Rightarrow> ('a, 'b) call \<Rightarrow> 'a event_queue \<Rightarrow> 'a event_queue" where
  "step flt (Enqueue task) q = enqueue task q"
| "step flt (CompleteTask item) q = completeTask flt item q"
| "step flt ReActivation q = reActivation q"
| "step flt Destroy q = destroy q"
| "step flt (ChangeConcurrency v) q = changeConcurrency v q"
| "step flt Subscribe q = onTaskActivation q"
| "step flt TimeoutFires q = timeout_fires q"

fun run :: "('b \<Rightarrow> 'a \<Rightarrow> bool) \<Rightarrow> 'a event_queue \<Rightarrow> ('a, 'b) call list \<Rightarrow> 'a event_queue" where
  "run flt q [] = q"
| "run flt q (c # cs) = run flt (step flt c q) cs"

text \<open>
  Bookkeeping for the life of a task: the tasks a call sequence enqueues, and the tasks its
  \<open>completeTask\<close> calls take out of the active list.
\<close>

fun is_queue_call :: "('a, 'b) call \<Rightarrow> bool" where
  "is_queue_call Destroy = False"
| "is_queue_call (ChangeConcurrency v) = False"
| "is_queue_call c = True"


text \<open>
  A burst: on a fresh queue with one listener, the tasks \<open>ts\<close> are enqueued one after the
  other in the same turn, then the host runs one timer callback.
\<close>

definition burst_dispatched :: "'a list \<Rightarrow> 'a event_queue" where
  "burst_dispatched ts =
     timeout_fires (foldl (\<lambda>q task. enqueue task q) (onTaskActivation new_EventQueue) ts)"

fun enqueued :: "('a, 'b) call list \<Rightarrow> 'a list" where
  "enqueued [] = []"
| "enqueued (Enqueue task # cs) = task # enqueued cs"
| "enqueued (c # cs) = enqueued cs"

fun removed_by :: "('b \<Rightarrow> 'a \<Rightarrow> bool) \<Rightarrow> ('a, 'b) call \<Rightarrow> 'a event_queue \<Rightarrow> 'a list" where
  "removed_by flt (CompleteTask item) q =
     (if findIndex (flt item) (activeTasks q) > - 1
      then [activeTasks q ! nat (findIndex (flt item) (activeTasks q))] else [])"
| "removed_by flt c q = []"

fun completed :: "('b \<Rightarrow> 'a \<Rightarrow> bool) \<Rightarrow> 'a event_queue \<Rightarrow> ('a, 'b) call list \<Rightarrow> 'a list" where
  "completed flt q [] = []"
| "completed flt q (c # cs) = removed_by flt c q @ completed flt (step flt c q) cs"

section \<open>Column declarations (the schema module)\<close>

text \<open>
  The argument of \<open>verify(value: any)\<close> is any JavaScript value. The values followed here are
  \<open>undefined\<close>, \<open>null\<close>, booleans, numbers and strings; a number is an integer. A thrown
  exception is the left summand of the result.
\<close>

datatype js_value = JUndefined | JNull | JBoolean bool | JNumber int | JString string

datatype js_error = JsError string | TypeError string

fun typeof :: "js_value \<Rightarrow> string" where
  "typeof JUndefined = ''undefined''"
| "typeof JNull = ''object''"
| "typeof (JBoolean b) = ''boolean''"
| "typeof (JNumber n) = ''number''"
| "typeof (JString s) = ''string''"

text \<open>
  The property read \<open>value.length\<close>: a TypeError on \<open>undefined\<close> and \<open>null\<close>, the length of
  a string, and \<open>undefined\<close> (here \<open>None\<close>) on a boolean or a number.
\<close>

fun length_property :: "js_value \<Rightarrow> js_error + int option" where
  "length_property JUndefined = Inl (TypeError ''Cannot read properties of undefined (reading 'length')'')"
| "length_property JNull = Inl (TypeError ''Cannot read properties of null (reading 'length')'')"
| "length_property (JString s) = Inr (Some (int (length s)))"
| "length_property v = Inr None"

text \<open>
  \<open>ToNumber\<close> for the comparisons \<open>value > max\<close> and \<open>value < min\<close>; \<open>None\<close> is NaN. What a
  string converts to is left to the parameter \<open>str_num\<close>.
\<close>

fun to_number :: "(string \<Rightarrow> int option) \<Rightarrow> js_value \<Rightarrow> int option" where
  "to_number str_num JUndefined = None"
| "to_number str_num JNull = Some 0"
| "to_number str_num (JBoolean b) = Some (if b then 1 else 0)"
| "to_number str_num (JNumber n) = Some n"
| "to_number str_num (JString s) = str_num s"

text \<open>A comparison with NaN on either side is false.\<close>

fun js_greater :: "int option \<Rightarrow> int \<Rightarrow> bool" where
  "js_greater None m = False"
| "js_greater (Some n) m = (n > m)"

fun js_less :: "int option \<Rightarrow> int \<Rightarrow> bool" where
  "js_less None m = False"
| "js_less (Some n) m = (n < m)"

text \<open>
  An integer inside a template literal: its decimal digits, with a sign when negative. This is
  what JavaScript prints for an integer below \<open>1e21\<close> in absolute value; from there on
  JavaScript prints the exponent form (\<open>1e+21\<close>), which is not followed.
\<close>

fun digits10 :: "nat \<Rightarrow> string" where
  "digits10 n =
     (if n < 10 then [''0123456789'' ! n]
      else digits10 (n div 10) @ [''0123456789'' ! (n mod 10)])"

declare digits10.simps [simp del]

definition show_int :: "int \<Rightarrow> string" where
  "show_int i = (if i < 0 then CHR ''-'' # digits10 (nat (- i)) else digits10 (nat i))"

text \<open>\<open>Array.prototype.join\<close>.\<close>

fun join :: "string \<Rightarrow> string list \<Rightarrow> string" where
  "join sep [] = []"
| "join sep [x] = x"
| "join sep (x # y # ys) = x @ sep @ join sep (y # ys)"

text \<open>
  The four flags of the abstract class \<open>ColumnType\<close> (\<open>_required\<close>, \<open>_unique\<close>, \<open>_primary\<close>,
  \<open>_autoIncrement\<close>) with their initial values, and the subclasses. Of the fields of
  \<open>ColumnText\<close> and \<open>ColumnInteger\<close>, \<open>_max\<close>, \<open>_min\<close> and \<open>_enums\<close> are kept, in this order;
  \<open>_default\<close> is read by none of the methods followed here.
\<close>

record column_flags =
  required :: bool
  unique :: bool
  primary :: bool
  autoIncrement :: bool

definition initial_flags :: column_flags where
  "initial_flags = \<lparr>required = True, unique = False, primary = False, autoIncrement = False\<rparr>"

datatype column =
    ColumnDate column_flags
  | ColumnText column_flags "int option" "int option" "string list option"
  | ColumnInteger column_flags "int option" "int option" "int list option"
  | ColumnBoolean column_flags
  | ColumnOptional column_flags column

fun flags_of :: "column \<Rightarrow> column_flags" where
  "flags_of (ColumnDate f) = f"
| "flags_of (ColumnText f mx mn en) = f"
| "flags_of (ColumnInteger f mx mn en) = f"
| "flags_of (ColumnBoolean f) = f"
| "flags_of (ColumnOptional f c) = f"

fun with_flags :: "(column_flags \<Rightarrow> column_flags) \<Rightarrow> column \<Rightarrow> column" where
  "with_flags g (ColumnDate f) = ColumnDate (g f)"
| "with_flags g (ColumnText f mx mn en) = ColumnText (g f) mx mn en"
| "with_flags g (ColumnInteger f mx mn en) = ColumnInteger (g f) mx mn en"
| "with_flags g (ColumnBoolean f) = ColumnBoolean (g f)"
| "with_flags g (ColumnOptional f c) = ColumnOptional (g f) c"

text \<open>The exported constructors and the fluent setters.\<close>

definition text_column :: column where
  "text_column = ColumnText initial_flags None None None"

definition integer_column :: column where
  "integer_column = ColumnInteger initial_flags None None None"

definition boolean_column :: column where
  "boolean_column = ColumnBoolean initial_flags"

definition date_column :: column where
  "date_column = ColumnDate initial_flags"

definition set_autoIncrement :: "column \<Rightarrow> column" where
  "set_autoIncrement c = with_flags (\<lambda>f. f\<lparr>autoIncrement := True\<rparr>) c"

definition set_primary :: "column \<Rightarrow> column" where
  "set_primary c = with_flags (\<lambda>f. f\<lparr>primary := True\<rparr>) c"

definition set_unique :: "column \<Rightarrow> column" where
  "set_unique c = with_flags (\<lambda>f. f\<lparr>unique := True\<rparr>) c"

text \<open>
  \<open>optional()\<close> builds \<open>new ColumnOptional(this)\<close>: the wrapper gets flags of its own, with
  their initial values, and its constructor clears \<open>_required\<close> of the wrapped column.
\<close>

definition optional :: "column \<Rightarrow> column" where
  "optional c = ColumnOptional initial_flags (with_flags (\<lambda>f. f\<lparr>required := False\<rparr>) c)"

text \<open>\<open>max\<close>, \<open>min\<close> and \<open>enum\<close> exist on text and integer columns only.\<close>

fun set_max :: "int \<Rightarrow> column \<Rightarrow> column" where
  "set_max m (ColumnText f mx mn en) = ColumnText f (Some m) mn en"
| "set_max m (ColumnInteger f mx mn en) = ColumnInteger f (Some m) mn en"
| "set_max m c = c"

fun set_min :: "int \<Rightarrow> column \<Rightarrow> column" where
  "set_min m (ColumnText f mx mn en) = ColumnText f mx (Some m) en"
| "set_min m (ColumnInteger f mx mn en) = ColumnInteger f mx (Some m) en"
| "set_min m c = c"

text \<open>\<open>ColumnType.genCreateSql\<close>, inherited unchanged by every subclass.\<close>

definition genCreateSql_flags :: "column_flags \<Rightarrow> js_error + string list" where
  "genCreateSql_flags f =
     (let sql0 = [] in
      if autoIncrement f \<and> \<not> primary f
      then Inl (JsError ''AUTOINCREMENT can only be applied to a primary key'')
      else
        let sql1 = (if primary f then sql0 @ [''PRIMARY KEY''] else sql0);
            sql2 = (if required f then sql1 @ [''NOT NULL''] else sql1);
            sql3 = (if unique f then sql2 @ [''UNIQUE''] else sql2);
            sql4 = (if autoIncrement f then sql3 @ [''AUTOINCREMENT''] else sql3)
        in Inr sql4)"

definition genCreateSql :: "column \<Rightarrow> js_error + string list" where
  "genCreateSql c = genCreateSql_flags (flags_of c)"

text \<open>\<open>ColumnType.verify\<close>, the method of the base class.\<close>

definition ColumnType_verify :: "column_flags \<Rightarrow> js_value \<Rightarrow> string list" where
  "ColumnType_verify f v =
     (if required f
      then (if v = JUndefined \<or> v = JNull then [''value is required''] else [])
      else [])"

text \<open>
  The three guarded pushes of \<open>ColumnText.verify\<close>. In \<open>this._max && value.length > this._max\<close>
  the right operand is evaluated only when \<open>_max\<close> is truthy (set and not 0).
\<close>

definition text_check_max :: "int option \<Rightarrow> js_value \<Rightarrow> string list \<Rightarrow> js_error + string list" where
  "text_check_max mx v ms =
     (case mx of
        None \<Rightarrow> Inr ms
      | Some m \<Rightarrow>
          if m = 0 then Inr ms
          else (case length_property v of
                  Inl e \<Rightarrow> Inl e
                | Inr len \<Rightarrow>
                    Inr (if js_greater len m
                         then ms @ [''value length must less than '' @ show_int m] else ms)))"

definition text_check_min :: "int option \<Rightarrow> js_value \<Rightarrow> string list \<Rightarrow> js_error + string list" where
  "text_check_min mn v ms =
     (case mn of
        None \<Rightarrow> Inr ms
      | Some m \<Rightarrow>
          if m = 0 then Inr ms
          else (case length_property v of
                  Inl e \<Rightarrow> Inl e
                | Inr len \<Rightarrow>
                    Inr (if js_less len m
                         then ms @ [''value length must greater than '' @ show_int m] else ms)))"

definition text_check_enums :: "string list option \<Rightarrow> js_value \<Rightarrow> string list \<Rightarrow> string list" where
  "text_check_enums en v ms =
     (case en of
        None \<Rightarrow> ms
      | Some es \<Rightarrow>
          if (case v of JString s \<Rightarrow> s \<in> set es | _ \<Rightarrow> False) then ms
          else ms @ [''value must be one of '' @ join '', '' es])"

definition ColumnText_verify ::
  "column_flags \<Rightarrow> int option \<Rightarrow> int option \<Rightarrow> string list option \<Rightarrow> js_value \<Rightarrow> js_error + string list" where
  "ColumnText_verify f mx mn en v =
     (let ms0 = ColumnType_verify f v;
          ms1 = (if typeof v \<noteq> ''string'' then ms0 @ [''value must be string''] else ms0)
      in case text_check_max mx v ms1 of
           Inl e \<Rightarrow> Inl e
         | Inr ms2 \<Rightarrow>
             (case text_check_min mn v ms2 of
                Inl e \<Rightarrow> Inl e
              | Inr ms3 \<Rightarrow> Inr (text_check_enums en v ms3)))"

definition ColumnInteger_verify ::
  "(string \<Rightarrow> int option) \<Rightarrow> column_flags \<Rightarrow> int option \<Rightarrow> int option \<Rightarrow> int list option \<Rightarrow>
   js_value \<Rightarrow> js_error + string list" where
  "ColumnInteger_verify str_num f mx mn en v =
     (let ms0 = ColumnType_verify f v;
          ms1 = (if typeof v \<noteq> ''number'' then ms0 @ [''value must be number''] else ms0);
          ms2 = (case mx of
                   None \<Rightarrow> ms1
                 | Some m \<Rightarrow>
                     if m \<noteq> 0 \<and> js_greater (to_number str_num v) m
                     then ms1 @ [''value must less than '' @ show_int m] else ms1);
          ms3 = (case mn of
                   None \<Rightarrow> ms2
                 | Some m \<Rightarrow>
                     if m \<noteq> 0 \<and> js_less (to_number str_num v) m
                     then ms2 @ [''value must greater than '' @ show_int m] else ms2);
          ms4 = (case en of
                   None \<Rightarrow> ms3
                 | Some es \<Rightarrow>
                     if (case v of JNumber n \<Rightarrow> n \<in> set es | _ \<Rightarrow> False) then ms3
                     else ms3 @ [''value must be one of '' @ join '', '' (map show_int es)])
      in Inr ms4)"

definition ColumnBoolean_verify :: "column_flags \<Rightarrow> js_value \<Rightarrow> js_error + string list" where
  "ColumnBoolean_verify f v =
     (let ms0 = ColumnType_verify f v
      in Inr (if typeof v \<noteq> ''boolean'' then ms0 @ [''value must be boolean''] else ms0))"

text \<open>
  Method dispatch: \<open>ColumnDate\<close> inherits the base method, \<open>ColumnOptional\<close> delegates to the
  wrapped column.
\<close>

fun verify :: "(string \<Rightarrow> int option) \<Rightarrow> column \<Rightarrow> js_value \<Rightarrow> js_error + string list" where
  "verify str_num (ColumnDate f) v = Inr (ColumnType_verify f v)"
| "verify str_num (ColumnText f mx mn en) v = ColumnText_verify f mx mn en v"
| "verify str_num (ColumnInteger f mx mn en) v = ColumnInteger_verify str_num f mx mn en v"
| "verify str_num (ColumnBoolean f) v = ColumnBoolean_verify f v"
| "verify str_num (ColumnOptional f c) v = verify str_num c v"

text \<open>
  The columns whose \<open>verify\<close> reaches the property read \<open>value.length\<close>: a text column with
  a truthy \<open>_max\<close> or \<open>_min\<close>, also under \<open>optional()\<close> wrappers. And the flag \<open>_required\<close>
  of the column that does the verification, below any wrappers.
\<close>

fun reads_length :: "column \<Rightarrow> bool" where
  "reads_length (ColumnText f mx mn en) =
     ((mx \<noteq> None \<and> mx \<noteq> Some 0) \<or> (mn \<noteq> None \<and> mn \<noteq> Some 0))"
| "reads_length (ColumnOptional f c) = reads_length c"
| "reads_length c = False"

fun verified_required :: "column \<Rightarrow> bool" where
  "verified_required (ColumnOptional f c) = verified_required c"
| "verified_required c = required (flags_of c)"

section \<open>Properties of the task queue\<close>

subsection \<open>The dispatch loop, \<open>findIndex\<close> and \<open>splice\<close>\<close>

lemma queueLoop_while_take_drop:
  "queueLoop_while m active pending =
     (active @ take (nat \<lceil>m - real (length active)\<rceil>) pending,
      drop (nat \<lceil>m - real (length active)\<rceil>) pending)"
proof (induction pending arbitrary: active)
  case Nil
  show ?case by simp
next
  case (Cons task pending)
  show ?case
  proof (cases "real (length active) < m")
    case True
    then have pos: "0 < \<lceil>m - real (length active)\<rceil>" by simp
    have "m - real (length (active @ [task])) = m - real (length active) - 1" by simp
    then have dec: "\<lceil>m - real (length (active @ [task]))\<rceil> = \<lceil>m - real (length active)\<rceil> - 1"
      by (simp only: ceiling_diff_one)
    from pos have "nat \<lceil>m - real (length active)\<rceil> =
        Suc (nat (\<lceil>m - real (length active)\<rceil> - 1))"
      by linarith
    then have "nat \<lceil>m - real (length active)\<rceil> =
        Suc (nat \<lceil>m - real (length (active @ [task]))\<rceil>)"
      by (simp only: dec)
    with True Cons show ?thesis by simp
  next
    case False
    then have "\<lceil>m - real (length active)\<rceil> \<le> 0" by (simp add: ceiling_le_iff)
    with False show ?thesis by simp
  qed
qed

lemma findIndex_ge: "- 1 \<le> findIndex p xs"
  by (induction xs) auto

lemma findIndex_none: "(findIndex p xs = - 1) = (\<forall>x \<in> set xs. \<not> p x)"
proof (induction xs)
  case Nil
  show ?case by simp
next
  case (Cons x xs)
  have "- 1 \<le> findIndex p xs" by (rule findIndex_ge)
  with Cons show ?case by auto
qed

lemma findIndex_found:
  "findIndex p xs > - 1 \<Longrightarrow> nat (findIndex p xs) < length xs \<and> p (xs ! nat (findIndex p xs))"
proof (induction xs)
  case Nil
  then show ?case by simp
next
  case (Cons x xs)
  show ?case
  proof (cases "p x")
    case True
    then show ?thesis by simp
  next
    case False
    with Cons.prems have pos: "findIndex p xs > - 1" by (simp split: if_splits)
    with Cons.IH have "nat (findIndex p xs) < length xs \<and> p (xs ! nat (findIndex p xs))" by simp
    moreover from pos have "nat (findIndex p xs + 1) = Suc (nat (findIndex p xs))" by simp
    ultimately show ?thesis using False pos by simp
  qed
qed

lemma mset_splice1:
  assumes "idx < length xs"
  shows "mset (splice1 idx xs) + {#xs ! idx#} = mset xs"
proof -
  have "mset xs = mset (take idx xs @ (xs ! idx) # drop (Suc idx) xs)"
    using assms by (simp add: id_take_nth_drop [symmetric])
  also have "\<dots> = mset (splice1 idx xs) + {#xs ! idx#}"
    by (simp add: splice1_def)
  finally show ?thesis by simp
qed

lemma length_splice1: "idx < length xs \<Longrightarrow> Suc (length (splice1 idx xs)) = length xs"
  by (auto simp: splice1_def)

lemma fireActiveTask_fields [simp]:
  "activeTasks (fireActiveTask q) = activeTasks q"
  "eventQueue (fireActiveTask q) = eventQueue q"
  "MAX_CONCURRENCY (fireActiveTask q) = MAX_CONCURRENCY q"
  "isDispatching (fireActiveTask q) = isDispatching q"
  "isLoopScheduled (fireActiveTask q) = isLoopScheduled q"
  "listeners (fireActiveTask q) = listeners q"
  "timers (fireActiveTask q) = timers q"
  by (simp_all add: fireActiveTask_def)

lemma queueLoop_lists:
  "\<not> isLoopScheduled q \<Longrightarrow>
   activeTasks (queueLoop q) =
     activeTasks q @ take (nat \<lceil>MAX_CONCURRENCY q - real (length (activeTasks q))\<rceil>) (eventQueue q) \<and>
   eventQueue (queueLoop q) =
     drop (nat \<lceil>MAX_CONCURRENCY q - real (length (activeTasks q))\<rceil>) (eventQueue q)"
  by (simp add: queueLoop_def Let_def queueLoop_while_take_drop)

lemma queueLoop_MAX [simp]: "MAX_CONCURRENCY (queueLoop q) = MAX_CONCURRENCY q"
  by (simp add: queueLoop_def Let_def)

lemma integer_limit_step:
  assumes "m \<in> \<int>" and "real n < m"
  shows "real (Suc n) \<le> m"
proof -
  from assms(1) obtain k where k: "m = of_int k" by (rule Ints_cases)
  with assms(2) have "int n < k" by simp
  then have "int (Suc n) \<le> k" by simp
  then have "real_of_int (int (Suc n)) \<le> real_of_int k" by (simp only: of_int_le_iff)
  with k show ?thesis by simp
qed

lemma queueLoop_while_bound:
  "m \<in> \<int> \<Longrightarrow> real (length active) \<le> m \<Longrightarrow>
   real (length (fst (queueLoop_while m active pending))) \<le> m"
proof (induction pending arbitrary: active)
  case Nil
  then show ?case by simp
next
  case (Cons task pending)
  show ?case
  proof (cases "real (length active) < m")
    case True
    from integer_limit_step [OF Cons.prems(1) True]
    have "real (length (active @ [task])) \<le> m" by simp
    from Cons.IH [OF Cons.prems(1) this] True show ?thesis by simp
  next
    case False
    with Cons.prems show ?thesis by simp
  qed
qed

lemma queueLoop_bound:
  assumes "MAX_CONCURRENCY q \<in> \<int>" and "real (length (activeTasks q)) \<le> MAX_CONCURRENCY q"
  shows "real (length (activeTasks (queueLoop q))) \<le> MAX_CONCURRENCY q"
proof (cases "isLoopScheduled q")
  case True
  with assms show ?thesis by (simp add: queueLoop_def)
next
  case False
  with queueLoop_while_bound [OF assms] show ?thesis by (simp add: queueLoop_def Let_def)
qed

lemma queueLoop_mset:
  "mset (eventQueue (queueLoop q)) + mset (activeTasks (queueLoop q)) =
   mset (eventQueue q) + mset (activeTasks q)"
proof (cases "isLoopScheduled q")
  case True
  then show ?thesis by (simp add: queueLoop_def)
next
  case False
  let ?k = "nat \<lceil>MAX_CONCURRENCY q - real (length (activeTasks q))\<rceil>"
  have "mset (take ?k (eventQueue q)) + mset (drop ?k (eventQueue q)) = mset (eventQueue q)"
    by (metis append_take_drop_id mset_append)
  with queueLoop_lists [OF False] show ?thesis by (simp add: ac_simps)
qed

lemma completeTask_MAX [simp]: "MAX_CONCURRENCY (completeTask flt item q) = MAX_CONCURRENCY q"
  by (simp add: completeTask_def Let_def)

lemma completeTask_lists:
  "eventQueue (completeTask flt item q) = eventQueue q \<and>
   activeTasks (completeTask flt item q) =
     (if findIndex (flt item) (activeTasks q) > - 1
      then splice1 (nat (findIndex (flt item) (activeTasks q))) (activeTasks q)
      else activeTasks q)"
  by (simp add: completeTask_def Let_def)

lemma step_MAX: "is_queue_call c \<Longrightarrow> MAX_CONCURRENCY (step flt c q) = MAX_CONCURRENCY q"
  by (cases c) (simp_all add: enqueue_def Let_def reActivation_def onTaskActivation_def timeout_fires_def)

lemma step_bound:
  assumes "is_queue_call c" and "MAX_CONCURRENCY q \<in> \<int>"
    and "real (length (activeTasks q)) \<le> MAX_CONCURRENCY q"
  shows "real (length (activeTasks (step flt c q))) \<le> MAX_CONCURRENCY q"
proof (cases c)
  case (Enqueue task)
  with assms show ?thesis by (simp add: enqueue_def Let_def)
next
  case (CompleteTask item)
  show ?thesis
  proof (cases "findIndex (flt item) (activeTasks q) > - 1")
    case True
    from length_splice1 [OF conjunct1 [OF findIndex_found [OF True]]]
    have "length (splice1 (nat (findIndex (flt item) (activeTasks q))) (activeTasks q)) \<le>
          length (activeTasks q)" by simp
    with assms(3) show ?thesis using CompleteTask True by (simp add: completeTask_lists)
  next
    case False
    with assms CompleteTask show ?thesis by (simp add: completeTask_lists)
  qed
next
  case TimeoutFires
  have "real (length (activeTasks (queueLoop (q\<lparr>timers := timers q - 1\<rparr>)))) \<le> MAX_CONCURRENCY q"
    using queueLoop_bound [of "q\<lparr>timers := timers q - 1\<rparr>"] assms(2,3) by simp
  with assms TimeoutFires show ?thesis by (simp add: timeout_fires_def)
qed (use assms in \<open>simp_all add: reActivation_def onTaskActivation_def\<close>)

lemma step_mset:
  assumes "is_queue_call c"
  shows "mset (eventQueue (step flt c q)) + mset (activeTasks (step flt c q)) + mset (removed_by flt c q) =
         mset (eventQueue q) + mset (activeTasks q) + mset (enqueued [c])"
proof (cases c)
  case (Enqueue task)
  then show ?thesis by (simp add: enqueue_def Let_def)
next
  case (CompleteTask item)
  show ?thesis
  proof (cases "findIndex (flt item) (activeTasks q) > - 1")
    case True
    from mset_splice1 [OF conjunct1 [OF findIndex_found [OF True]]]
    show ?thesis using CompleteTask True by (simp add: completeTask_lists)
  next
    case False
    with CompleteTask show ?thesis by (simp add: completeTask_lists)
  qed
next
  case TimeoutFires
  have "mset (eventQueue (queueLoop (q\<lparr>timers := timers q - 1\<rparr>))) +
        mset (activeTasks (queueLoop (q\<lparr>timers := timers q - 1\<rparr>))) =
        mset (eventQueue q) + mset (activeTasks q)"
    using queueLoop_mset [of "q\<lparr>timers := timers q - 1\<rparr>"] by simp
  with TimeoutFires show ?thesis by (simp add: timeout_fires_def)
qed (use assms in \<open>simp_all add: reActivation_def onTaskActivation_def\<close>)

lemma enqueued_Cons: "enqueued (c # cs) = enqueued [c] @ enqueued cs"
  by (cases c) simp_all

lemma run_invariants:
  assumes "list_all is_queue_call cs" and "MAX_CONCURRENCY q \<in> \<int>"
    and "real (length (activeTasks q)) \<le> MAX_CONCURRENCY q"
  shows "MAX_CONCURRENCY (run flt q cs) = MAX_CONCURRENCY q \<and>
         real (length (activeTasks (run flt q cs))) \<le> MAX_CONCURRENCY q \<and>
         mset (eventQueue (run flt q cs)) + mset (activeTasks (run flt q cs)) + mset (completed flt q cs) =
           mset (eventQueue q) + mset (activeTasks q) + mset (enqueued cs)"
  using assms
proof (induction cs arbitrary: q)
  case Nil
  then show ?case by simp
next
  case (Cons c cs)
  from Cons.prems have c: "is_queue_call c" and cs: "list_all is_queue_call cs" by simp_all
  have m: "MAX_CONCURRENCY (step flt c q) = MAX_CONCURRENCY q" by (rule step_MAX [OF c])
  have i: "MAX_CONCURRENCY (step flt c q) \<in> \<int>" using Cons.prems(2) m by simp
  have b: "real (length (activeTasks (step flt c q))) \<le> MAX_CONCURRENCY (step flt c q)"
    using step_bound [OF c Cons.prems(2,3)] m by simp
  note ih = Cons.IH [OF cs i b]
  have e: "mset (enqueued (c # cs)) = mset (enqueued [c]) + mset (enqueued cs)"
    by (subst enqueued_Cons) simp
  from ih m step_mset [OF c, of flt q] e show ?case
    by (simp add: ac_simps)
qed

subsection \<open>Bounded active list, conserved tasks\<close>

text \<open>
  Claim C1, as the code has it. Take a fresh queue whose limit \<open>MAX_CONCURRENCY\<close> was set to
  a positive integer \<open>m\<close>, and any sequence of \<open>enqueue\<close>, \<open>completeTask\<close> and
  \<open>reActivation\<close> calls, with listeners subscribing and timer callbacks running anywhere in
  between. In the state reached (so, after every prefix of the sequence): the limit is still
  \<open>m\<close>; the active list has at most \<open>m\<close> tasks; the pending and the active list together hold
  exactly the tasks that were enqueued and not yet taken out by a matching \<open>completeTask\<close>,
  each as often as it is alive; and when the enqueued tasks are pairwise distinct, no task
  occurs twice in the two lists, so a live task is in exactly one of them.
\<close>

theorem active_bounded_tasks_conserved:
  assumes "m \<in> \<int>" and "0 < m" and "list_all is_queue_call cs"
  shows "MAX_CONCURRENCY (run flt (changeConcurrency m new_EventQueue) cs) = m \<and>
         real (length (activeTasks (run flt (changeConcurrency m new_EventQueue) cs))) \<le> m \<and>
         mset (eventQueue (run flt (changeConcurrency m new_EventQueue) cs)) +
         mset (activeTasks (run flt (changeConcurrency m new_EventQueue) cs)) +
         mset (completed flt (changeConcurrency m new_EventQueue) cs) = mset (enqueued cs) \<and>
         (distinct (enqueued cs) \<longrightarrow>
            distinct (eventQueue (run flt (changeConcurrency m new_EventQueue) cs) @
                      activeTasks (run flt (changeConcurrency m new_EventQueue) cs)))"
proof -
  let ?start = "changeConcurrency m new_EventQueue :: 'a event_queue"
  let ?q = "run flt ?start cs"
  have q0: "MAX_CONCURRENCY ?start = m" "eventQueue ?start = []" "activeTasks ?start = []"
    by (simp_all add: changeConcurrency_def new_EventQueue_def)
  have whole: "MAX_CONCURRENCY ?start \<in> \<int>" using assms(1) q0(1) by simp
  have bound0: "real (length (activeTasks ?start)) \<le> MAX_CONCURRENCY ?start"
    using assms(2) q0 by simp
  note inv = run_invariants [OF assms(3) whole bound0, of flt]
  from inv q0 have lim: "MAX_CONCURRENCY ?q = m" and len: "real (length (activeTasks ?q)) \<le> m"
    by simp_all
  from inv q0 have cons:
    "mset (eventQueue ?q) + mset (activeTasks ?q) + mset (completed flt ?start cs) = mset (enqueued cs)"
    by simp
  have dist: "distinct (eventQueue ?q @ activeTasks ?q)" if d: "distinct (enqueued cs)"
  proof -
    from cons have "mset (eventQueue ?q @ activeTasks ?q @ completed flt ?start cs) = mset (enqueued cs)"
      by (simp add: ac_simps)
    from mset_eq_imp_distinct_iff [OF this] d
    have "distinct (eventQueue ?q @ activeTasks ?q @ completed flt ?start cs)" by simp
    then show ?thesis by auto
  qed
  from lim len cons dist show ?thesis by blast
qed

theorem active_bounded_tasks_conserved_witness:
  "(2::real) \<in> \<int> \<and> (0::real) < 2 \<and>
   list_all is_queue_call
     [Subscribe, Enqueue (1::nat), Enqueue 2, Enqueue 3, TimeoutFires, CompleteTask (1::nat), ReActivation] \<and>
   real (length (activeTasks (run (=) (changeConcurrency 2 new_EventQueue)
     [Subscribe, Enqueue (1::nat), Enqueue 2, Enqueue 3, TimeoutFires, CompleteTask (1::nat), ReActivation]))) \<le> 2 \<and>
   distinct (eventQueue (run (=) (changeConcurrency 2 new_EventQueue)
     [Subscribe, Enqueue (1::nat), Enqueue 2, Enqueue 3, TimeoutFires, CompleteTask (1::nat), ReActivation]) @
     activeTasks (run (=) (changeConcurrency 2 new_EventQueue)
     [Subscribe, Enqueue (1::nat), Enqueue 2, Enqueue 3, TimeoutFires, CompleteTask (1::nat), ReActivation]))"
proof -
  have h0: "(2::real) \<in> \<int>" by simp
  have h1: "(0::real) < 2" by simp
  have h2: "list_all is_queue_call
     [Subscribe, Enqueue (1::nat), Enqueue 2, Enqueue 3, TimeoutFires, CompleteTask (1::nat), ReActivation]"
    by simp
  have h3: "distinct (enqueued
     [Subscribe, Enqueue (1::nat), Enqueue 2, Enqueue 3, TimeoutFires, CompleteTask (1::nat), ReActivation])"
    by simp
  from active_bounded_tasks_conserved [OF h0 h1 h2, of "(=)"] h0 h1 h2 h3 show ?thesis by blast
qed

text \<open>
  Claim C1 as stated fails: \<open>changeConcurrency\<close> stores any number, and with the positive
  limit 2.5 the dispatch loop still admits a task when two are active (2 < 2.5), so three
  tasks are active.
\<close>

theorem fractional_limit_exceeded:
  "(0::real) < 5 / 2 \<and>
   activeTasks (run (=) (changeConcurrency (5 / 2) new_EventQueue)
     [Enqueue (1::nat), Enqueue 2, Enqueue 3, TimeoutFires :: (nat, nat) call]) = [1, 2, 3] \<and>
   \<not> real (length (activeTasks (run (=) (changeConcurrency (5 / 2) new_EventQueue)
     [Enqueue (1::nat), Enqueue 2, Enqueue 3, TimeoutFires :: (nat, nat) call]))) \<le> 5 / 2"
  by (simp add: new_EventQueue_def changeConcurrency_def enqueue_def timeout_fires_def
      queueLoop_def fireActiveTask_def hasListeners_def Let_def)

subsection \<open>A completion that matches nothing\<close>

lemma findIndex_miss: "\<forall>t \<in> set xs. \<not> p t \<Longrightarrow> findIndex p xs = - 1"
  by (simp add: findIndex_none)

text \<open>
  Claim C4. When the filter matches no active task for the descriptor, \<open>completeTask\<close>
  returns (no path of the method throws) with the active and the pending list as they were,
  and logs \<open>task not found:\<close> at error severity. A dispatch cycle is not aborted: no waiting
  timer callback is lost, \<open>isLoopScheduled\<close> is untouched, no event is fired or withdrawn, and
  a cycle that was scheduled moves the same tasks as it would have without the call.
\<close>

theorem completeTask_miss_keeps_lists:
  assumes "\<forall>t \<in> set (activeTasks q). \<not> flt item t"
  shows "activeTasks (completeTask flt item q) = activeTasks q \<and>
         eventQueue (completeTask flt item q) = eventQueue q \<and>
         logged (completeTask flt item q) = logged q @ [(Error, ''task not found:'')] \<and>
         fired (completeTask flt item q) = fired q \<and>
         isLoopScheduled (completeTask flt item q) = isLoopScheduled q \<and>
         timers q \<le> timers (completeTask flt item q) \<and>
         (0 < timers q \<longrightarrow>
            activeTasks (timeout_fires (completeTask flt item q)) = activeTasks (timeout_fires q) \<and>
            eventQueue (timeout_fires (completeTask flt item q)) = eventQueue (timeout_fires q))"
proof -
  have miss: "findIndex (flt item) (activeTasks q) = - 1"
    using assms by (rule findIndex_miss)
  then have fields:
    "activeTasks (completeTask flt item q) = activeTasks q"
    "eventQueue (completeTask flt item q) = eventQueue q"
    "logged (completeTask flt item q) = logged q @ [(Error, ''task not found:'')]"
    "fired (completeTask flt item q) = fired q"
    "isLoopScheduled (completeTask flt item q) = isLoopScheduled q"
    "MAX_CONCURRENCY (completeTask flt item q) = MAX_CONCURRENCY q"
    "timers q \<le> timers (completeTask flt item q)"
    by (simp_all add: completeTask_def Let_def)
  have cycle: "activeTasks (timeout_fires (completeTask flt item q)) = activeTasks (timeout_fires q) \<and>
               eventQueue (timeout_fires (completeTask flt item q)) = eventQueue (timeout_fires q)"
    if "0 < timers q"
  proof -
    from that fields(7) have "0 < timers (completeTask flt item q)" by simp
    with that fields show ?thesis
      by (simp add: timeout_fires_def queueLoop_def Let_def)
  qed
  from fields cycle show ?thesis by blast
qed

theorem completeTask_miss_keeps_lists_witness:
  "activeTasks (completeTask (=) (7::nat) (run (=) new_EventQueue [Subscribe, Enqueue (1::nat), Enqueue 2, TimeoutFires]))
     = [1, 2] \<and>
   logged (completeTask (=) (7::nat) (run (=) new_EventQueue [Subscribe, Enqueue (1::nat), Enqueue 2, TimeoutFires]))
     = logged (run (=) new_EventQueue [Subscribe, Enqueue (1::nat), Enqueue 2, TimeoutFires]) @ [(Error, ''task not found:'')]"
proof -
  have a: "activeTasks (run (=) new_EventQueue [Subscribe, Enqueue (1::nat), Enqueue 2, TimeoutFires]) = [1, 2]"
    by (simp add: new_EventQueue_def onTaskActivation_def enqueue_def timeout_fires_def queueLoop_def
        fireActiveTask_def hasListeners_def Let_def)
  then have h: "\<forall>t \<in> set (activeTasks (run (=) new_EventQueue [Subscribe, Enqueue (1::nat), Enqueue 2, TimeoutFires])).
      \<not> (7::nat) = t"
    by simp
  from completeTask_miss_keeps_lists [where flt = "(=)" and item = "7::nat", OF h] a show ?thesis by simp
qed

subsection \<open>Activation without a listener\<close>

text \<open>
  Claim C6. A dispatch cycle that fires with no listener attached logs one entry at error
  severity and delivers no event. Nothing is thrown, and the tasks count as dispatched: the
  cycle admits the same tasks into the active list, and leaves the same lists, flags and
  timers, as it does with a listener attached, so the queue goes on as usual.
\<close>

theorem no_listener_activation_logged:
  assumes "\<not> hasListeners q" and "\<not> isLoopScheduled q"
  shows "logged (queueLoop q) = logged q @
           [(Error, ''Severity error !!!!!! No listener for active task, task will be completed'')] \<and>
         fired (queueLoop q) = fired q \<and>
         activeTasks (queueLoop q) =
           activeTasks q @ take (nat \<lceil>MAX_CONCURRENCY q - real (length (activeTasks q))\<rceil>) (eventQueue q) \<and>
         eventQueue (queueLoop q) =
           drop (nat \<lceil>MAX_CONCURRENCY q - real (length (activeTasks q))\<rceil>) (eventQueue q) \<and>
         activeTasks (queueLoop q) = activeTasks (queueLoop (onTaskActivation q)) \<and>
         eventQueue (queueLoop q) = eventQueue (queueLoop (onTaskActivation q)) \<and>
         isDispatching (queueLoop q) = isDispatching (queueLoop (onTaskActivation q)) \<and>
         isLoopScheduled (queueLoop q) = False \<and>
         timers (queueLoop q) = timers (queueLoop (onTaskActivation q))"
proof -
  have "logged (queueLoop q) = logged q @
           [(Error, ''Severity error !!!!!! No listener for active task, task will be completed'')]"
    and "fired (queueLoop q) = fired q"
    using assms by (simp_all add: queueLoop_def fireActiveTask_def hasListeners_def Let_def)
  moreover note queueLoop_lists [OF assms(2)]
  moreover have "activeTasks (queueLoop q) = activeTasks (queueLoop (onTaskActivation q))"
    and "eventQueue (queueLoop q) = eventQueue (queueLoop (onTaskActivation q))"
    and "isDispatching (queueLoop q) = isDispatching (queueLoop (onTaskActivation q))"
    and "isLoopScheduled (queueLoop q) = False"
    and "timers (queueLoop q) = timers (queueLoop (onTaskActivation q))"
    using assms(2) by (simp_all add: queueLoop_def onTaskActivation_def Let_def)
  ultimately show ?thesis by blast
qed

theorem no_listener_activation_logged_witness:
  "\<not> hasListeners (enqueue (1::nat) new_EventQueue) \<and>
   \<not> isLoopScheduled (enqueue (1::nat) new_EventQueue) \<and>
   activeTasks (queueLoop (enqueue (1::nat) new_EventQueue)) = [1] \<and>
   fired (queueLoop (enqueue (1::nat) new_EventQueue)) = [] \<and>
   logged (queueLoop (enqueue (1::nat) new_EventQueue)) =
     [(Info, ''EventQueue created''), (Info, ''enqueue''),
      (Error, ''Severity error !!!!!! No listener for active task, task will be completed'')]"
proof -
  have h1: "\<not> hasListeners (enqueue (1::nat) new_EventQueue)"
    by (simp add: hasListeners_def enqueue_def new_EventQueue_def Let_def)
  have h2: "\<not> isLoopScheduled (enqueue (1::nat) new_EventQueue)"
    by (simp add: enqueue_def new_EventQueue_def Let_def)
  from no_listener_activation_logged [OF h1 h2] h1 h2 show ?thesis
    by (simp add: enqueue_def new_EventQueue_def Let_def)
qed

subsection \<open>Changing the limit\<close>

text \<open>
  Claim C7. The limit of a fresh process is 5. \<open>changeConcurrency v\<close> stores \<open>v\<close> and touches
  neither list. The next dispatch cycle admits pending tasks up to \<open>v\<close>: it appends the first
  \<open>v - length active\<close> pending tasks (rounded up when \<open>v\<close> is no integer) to the active list.
  When \<open>v\<close> is not above the number of active tasks the cycle admits nothing and removes
  nothing.
\<close>

theorem changeConcurrency_next_cycle:
  "MAX_CONCURRENCY (new_EventQueue :: 'a event_queue) = 5 \<and>
   MAX_CONCURRENCY (changeConcurrency v (q :: 'a event_queue)) = v \<and>
   activeTasks (changeConcurrency v q) = activeTasks q \<and>
   eventQueue (changeConcurrency v q) = eventQueue q \<and>
   (\<not> isLoopScheduled q \<longrightarrow>
      activeTasks (queueLoop (changeConcurrency v q)) =
        activeTasks q @ take (nat \<lceil>v - real (length (activeTasks q))\<rceil>) (eventQueue q) \<and>
      eventQueue (queueLoop (changeConcurrency v q)) =
        drop (nat \<lceil>v - real (length (activeTasks q))\<rceil>) (eventQueue q)) \<and>
   (v \<le> real (length (activeTasks q)) \<longrightarrow>
      activeTasks (queueLoop (changeConcurrency v q)) = activeTasks q \<and>
      eventQueue (queueLoop (changeConcurrency v q)) = eventQueue q)"
proof -
  have c: "MAX_CONCURRENCY (changeConcurrency v q) = v"
    "activeTasks (changeConcurrency v q) = activeTasks q"
    "eventQueue (changeConcurrency v q) = eventQueue q"
    "isLoopScheduled (changeConcurrency v q) = isLoopScheduled q"
    by (simp_all add: changeConcurrency_def)
  have cyc: "activeTasks (queueLoop (changeConcurrency v q)) =
        activeTasks q @ take (nat \<lceil>v - real (length (activeTasks q))\<rceil>) (eventQueue q) \<and>
      eventQueue (queueLoop (changeConcurrency v q)) =
        drop (nat \<lceil>v - real (length (activeTasks q))\<rceil>) (eventQueue q)" if "\<not> isLoopScheduled q"
    using queueLoop_lists [of "changeConcurrency v q"] that c by simp
  have low: "activeTasks (queueLoop (changeConcurrency v q)) = activeTasks q \<and>
      eventQueue (queueLoop (changeConcurrency v q)) = eventQueue q"
    if "v \<le> real (length (activeTasks q))"
  proof (cases "isLoopScheduled q")
    case True
    with c show ?thesis by (simp add: queueLoop_def)
  next
    case False
    from that have "\<lceil>v - real (length (activeTasks q))\<rceil> \<le> 0" by (simp add: ceiling_le_iff)
    then have "nat \<lceil>v - real (length (activeTasks q))\<rceil> = 0" by simp
    with cyc [OF False] show ?thesis by simp
  qed
  have "MAX_CONCURRENCY (new_EventQueue :: 'a event_queue) = 5"
    by (simp add: new_EventQueue_def)
  with c cyc low show ?thesis by blast
qed

theorem changeConcurrency_next_cycle_witness:
  "activeTasks (queueLoop (changeConcurrency 1
     (run (=) new_EventQueue [Enqueue (1::nat), Enqueue 2, Enqueue 3, TimeoutFires, Enqueue 4]))) = [1, 2, 3] \<and>
   eventQueue (queueLoop (changeConcurrency 1
     (run (=) new_EventQueue [Enqueue (1::nat), Enqueue 2, Enqueue 3, TimeoutFires, Enqueue 4]))) = [4] \<and>
   activeTasks (queueLoop (changeConcurrency 4
     (run (=) new_EventQueue [Enqueue (1::nat), Enqueue 2, Enqueue 3, TimeoutFires, Enqueue 4]))) = [1, 2, 3, 4]"
proof -
  let ?s = "run (=) new_EventQueue [Enqueue (1::nat), Enqueue 2, Enqueue 3, TimeoutFires, Enqueue 4]"
  have f: "activeTasks ?s = [1, 2, 3]" "eventQueue ?s = [4]" "\<not> isLoopScheduled ?s"
    by (simp_all add: new_EventQueue_def enqueue_def timeout_fires_def queueLoop_def
        fireActiveTask_def hasListeners_def Let_def)
  from changeConcurrency_next_cycle [of 1 ?s] changeConcurrency_next_cycle [of 4 ?s] f
  show ?thesis by (simp del: run.simps)
qed

subsection \<open>Re-activation\<close>

text \<open>
  Claim C8. \<open>reActivation()\<close> leaves the pending list, the active list, both flags, the
  timers, the limit and the listeners as they are; with a listener attached it fires one
  more event, carrying the current active list, and logs nothing.
\<close>

theorem reActivation_changes_no_state:
  "eventQueue (reActivation q) = eventQueue q \<and>
   activeTasks (reActivation q) = activeTasks q \<and>
   isDispatching (reActivation q) = isDispatching q \<and>
   isLoopScheduled (reActivation q) = isLoopScheduled q \<and>
   timers (reActivation q) = timers q \<and>
   MAX_CONCURRENCY (reActivation q) = MAX_CONCURRENCY q \<and>
   listeners (reActivation q) = listeners q \<and>
   (hasListeners q \<longrightarrow> fired (reActivation q) = fired q @ [activeTasks q] \<and>
                         logged (reActivation q) = logged q)"
  by (simp add: reActivation_def fireActiveTask_def)

theorem reActivation_changes_no_state_witness:
  "hasListeners (run (=) new_EventQueue [Subscribe, Enqueue (1::nat), TimeoutFires]) \<and>
   fired (reActivation (run (=) new_EventQueue [Subscribe, Enqueue (1::nat), TimeoutFires])) = [[1], [1]] \<and>
   activeTasks (reActivation (run (=) new_EventQueue [Subscribe, Enqueue (1::nat), TimeoutFires])) = [1]"
proof -
  let ?s = "run (=) new_EventQueue [Subscribe, Enqueue (1::nat), TimeoutFires]"
  have f: "hasListeners ?s" "fired ?s = [[1]]" "activeTasks ?s = [1]"
    by (simp_all add: new_EventQueue_def enqueue_def timeout_fires_def queueLoop_def
        fireActiveTask_def hasListeners_def onTaskActivation_def Let_def)
  from reActivation_changes_no_state [of ?s] f show ?thesis by (simp del: run.simps)
qed

subsection \<open>The scenario of seven tasks\<close>

lemmas queue_defs = new_EventQueue_def onTaskActivation_def enqueue_def timeout_fires_def
  queueLoop_def fireActiveTask_def hasListeners_def reActivation_def destroy_def dispose_def
  changeConcurrency_def Let_def

lemma burst_of_seven:
  "burst_dispatched [t1, t2, t3, t4, t5, t6, t7] =
     \<lparr>MAX_CONCURRENCY = 5, eventQueue = [t6, t7], activeTasks = [t1, t2, t3, t4, t5],
      isDispatching = True, isLoopScheduled = False, listeners = 1, timers = 0,
      fired = [[t1, t2, t3, t4, t5]],
      logged = [(Info, ''EventQueue created''), (Info, ''enqueue''), (Info, ''enqueue''),
                (Info, ''enqueue''), (Info, ''enqueue''), (Info, ''enqueue''),
                (Info, ''enqueue''), (Info, ''enqueue'')]\<rparr>"
  by (simp add: burst_dispatched_def queue_defs)

lemma findIndex_hit: "\<exists>t \<in> set xs. p t \<Longrightarrow> findIndex p xs > - 1"
  using findIndex_none [of p xs] findIndex_ge [of p xs] by auto

text \<open>
  A queue that has pending tasks, and a waiting dispatch cycle exactly when its active list
  is empty, stays so under \<open>completeTask\<close> calls; they touch neither the pending list nor
  the events fired.
\<close>

lemma completeTask_keeps_batch:
  assumes "eventQueue q \<noteq> []"
    and "activeTasks q \<noteq> [] \<longrightarrow> timers q = 0"
    and "activeTasks q = [] \<longrightarrow> 0 < timers q"
  shows "eventQueue (completeTask flt item q) = eventQueue q \<and>
         fired (completeTask flt item q) = fired q \<and>
         listeners (completeTask flt item q) = listeners q \<and>
         isLoopScheduled (completeTask flt item q) = isLoopScheduled q \<and>
         MAX_CONCURRENCY (completeTask flt item q) = MAX_CONCURRENCY q \<and>
         (activeTasks (completeTask flt item q) \<noteq> [] \<longrightarrow> timers (completeTask flt item q) = 0) \<and>
         (activeTasks (completeTask flt item q) = [] \<longrightarrow> 0 < timers (completeTask flt item q))"
proof (cases "findIndex (flt item) (activeTasks q) > - 1")
  case True
  from findIndex_found [OF True] have "activeTasks q \<noteq> []" by auto
  with assms(2) have "timers q = 0" by simp
  with True assms(1) show ?thesis by (simp add: completeTask_def Let_def)
next
  case False
  with assms show ?thesis by (auto simp: completeTask_def Let_def)
qed

lemma completions_keep_batch:
  "eventQueue q \<noteq> [] \<Longrightarrow> activeTasks q \<noteq> [] \<longrightarrow> timers q = 0 \<Longrightarrow>
   activeTasks q = [] \<longrightarrow> 0 < timers q \<Longrightarrow>
   eventQueue (run flt q (map CompleteTask items)) = eventQueue q \<and>
   fired (run flt q (map CompleteTask items)) = fired q \<and>
   listeners (run flt q (map CompleteTask items)) = listeners q \<and>
   isLoopScheduled (run flt q (map CompleteTask items)) = isLoopScheduled q \<and>
   MAX_CONCURRENCY (run flt q (map CompleteTask items)) = MAX_CONCURRENCY q \<and>
   (activeTasks (run flt q (map CompleteTask items)) \<noteq> [] \<longrightarrow>
      timers (run flt q (map CompleteTask items)) = 0) \<and>
   (activeTasks (run flt q (map CompleteTask items)) = [] \<longrightarrow>
      0 < timers (run flt q (map CompleteTask items)))"
proof (induction items arbitrary: q)
  case Nil
  then show ?case by simp
next
  case (Cons item items)
  note s = completeTask_keeps_batch [OF Cons.prems, of flt item]
  from s Cons.prems(1) have e: "eventQueue (completeTask flt item q) \<noteq> []" by simp
  from Cons.IH [OF e conjunct1 [OF conjunct2 [OF conjunct2 [OF conjunct2 [OF conjunct2 [OF conjunct2 [OF s]]]]]]
      conjunct2 [OF conjunct2 [OF conjunct2 [OF conjunct2 [OF conjunct2 [OF conjunct2 [OF s]]]]]]] s
  show ?case by simp
qed

text \<open>
  Claim C2, as the code has it. On a fresh queue with the limit 5 and a listener, seven tasks
  are enqueued and the dispatch cycle runs: the first activation event reports the first five
  tasks, and two are pending. After one \<open>completeTask\<close> that matches an active task, four
  tasks are active and the two are still pending; no dispatch cycle is scheduled (a timer
  callback finds nothing to run) and no second activation event has fired. A
  \<open>reActivation()\<close> at this point reports the four remaining tasks. Whatever
  \<open>completeTask\<close> calls are made after the first cycle: while the active list is not empty,
  the two tasks stay pending, no cycle is scheduled and no second event fires; once it is
  empty, the cycle then scheduled admits the two tasks and fires the second event, which
  reports them with nothing pending.
\<close>

theorem seven_tasks_one_completion:
  assumes "length ts = 7" and "\<exists>t \<in> set (take 5 ts). flt item t"
  shows "fired (burst_dispatched ts) = [take 5 ts] \<and>
         activeTasks (burst_dispatched ts) = take 5 ts \<and>
         eventQueue (burst_dispatched ts) = drop 5 ts \<and>
         length (activeTasks (completeTask flt item (burst_dispatched ts))) = 4 \<and>
         eventQueue (completeTask flt item (burst_dispatched ts)) = drop 5 ts \<and>
         length (eventQueue (completeTask flt item (burst_dispatched ts))) = 2 \<and>
         timers (completeTask flt item (burst_dispatched ts)) = 0 \<and>
         fired (completeTask flt item (burst_dispatched ts)) = [take 5 ts] \<and>
         timeout_fires (completeTask flt item (burst_dispatched ts)) =
           completeTask flt item (burst_dispatched ts) \<and>
         fired (reActivation (completeTask flt item (burst_dispatched ts))) =
           [take 5 ts, activeTasks (completeTask flt item (burst_dispatched ts))] \<and>
         (activeTasks (run flt (burst_dispatched ts) (map CompleteTask items)) \<noteq> [] \<longrightarrow>
            timers (run flt (burst_dispatched ts) (map CompleteTask items)) = 0 \<and>
            eventQueue (run flt (burst_dispatched ts) (map CompleteTask items)) = drop 5 ts \<and>
            fired (run flt (burst_dispatched ts) (map CompleteTask items)) = [take 5 ts] \<and>
            timeout_fires (run flt (burst_dispatched ts) (map CompleteTask items)) =
              run flt (burst_dispatched ts) (map CompleteTask items)) \<and>
         (activeTasks (run flt (burst_dispatched ts) (map CompleteTask items)) = [] \<longrightarrow>
            activeTasks (timeout_fires (run flt (burst_dispatched ts) (map CompleteTask items))) =
              drop 5 ts \<and>
            eventQueue (timeout_fires (run flt (burst_dispatched ts) (map CompleteTask items))) = [] \<and>
            fired (timeout_fires (run flt (burst_dispatched ts) (map CompleteTask items))) =
              [take 5 ts, drop 5 ts])"
proof -
  from assms(1) obtain t1 t2 t3 t4 t5 t6 t7 where ts: "ts = [t1, t2, t3, t4, t5, t6, t7]"
    by (auto simp: eval_nat_numeral length_Suc_conv)
  let ?b = "burst_dispatched ts"
  let ?c = "completeTask flt item ?b"
  have b: "fired ?b = [take 5 ts]" "activeTasks ?b = take 5 ts" "eventQueue ?b = drop 5 ts"
    "timers ?b = 0" "listeners ?b = 1"
    by (simp_all add: ts burst_of_seven)
  have b': "MAX_CONCURRENCY ?b = 5" "\<not> isLoopScheduled ?b" "eventQueue ?b \<noteq> []"
    "activeTasks ?b \<noteq> []"
    by (simp_all add: ts burst_of_seven)
  from assms(2) b(2) have hit: "findIndex (flt item) (activeTasks ?b) > - 1"
    by (simp add: findIndex_hit)
  from length_splice1 [OF conjunct1 [OF findIndex_found [OF hit]]] b(2) ts
  have len: "length (splice1 (nat (findIndex (flt item) (activeTasks ?b))) (activeTasks ?b)) = 4"
    by simp
  have act: "activeTasks ?c = splice1 (nat (findIndex (flt item) (activeTasks ?b))) (activeTasks ?b)"
    using hit by (simp add: completeTask_lists)
  with len have c1: "length (activeTasks ?c) = 4" by simp
  have c2: "eventQueue ?c = drop 5 ts" using b(3) by (simp add: completeTask_lists)
  then have c3: "length (eventQueue ?c) = 2" by (simp add: ts)
  from len have ne: "splice1 (nat (findIndex (flt item) (activeTasks ?b))) (activeTasks ?b) \<noteq> []"
    by auto
  have c4: "timers ?c = 0" "fired ?c = [take 5 ts]" "listeners ?c = 1"
    using hit ne b(1,4,5) by (simp_all add: completeTask_def Let_def)
  from c4(1) have c5: "timeout_fires ?c = ?c" by (simp add: timeout_fires_def)
  from c4 have c6: "fired (reActivation ?c) = [take 5 ts, activeTasks ?c]"
    by (simp add: reActivation_def fireActiveTask_def hasListeners_def)
  let ?d = "run flt ?b (map CompleteTask items)"
  from b'(4) b(4) have pre: "activeTasks ?b \<noteq> [] \<longrightarrow> timers ?b = 0"
    "activeTasks ?b = [] \<longrightarrow> 0 < timers ?b"
    by simp_all
  from completions_keep_batch [OF b'(3) pre, of flt items] b b'
  have d: "eventQueue ?d = drop 5 ts" "fired ?d = [take 5 ts]" "listeners ?d = 1"
    "\<not> isLoopScheduled ?d" "MAX_CONCURRENCY ?d = 5"
    "activeTasks ?d \<noteq> [] \<longrightarrow> timers ?d = 0" "activeTasks ?d = [] \<longrightarrow> 0 < timers ?d"
    by simp_all
  have busy: "timers ?d = 0 \<and> eventQueue ?d = drop 5 ts \<and> fired ?d = [take 5 ts] \<and>
      timeout_fires ?d = ?d" if "activeTasks ?d \<noteq> []"
    using that d by (simp add: timeout_fires_def)
  have drained: "activeTasks (timeout_fires ?d) = drop 5 ts \<and> eventQueue (timeout_fires ?d) = [] \<and>
      fired (timeout_fires ?d) = [take 5 ts, drop 5 ts]" if empty: "activeTasks ?d = []"
  proof -
    let ?d' = "?d\<lparr>timers := timers ?d - 1\<rparr>"
    from empty d(7) have tf: "timeout_fires ?d = queueLoop ?d'" by (simp add: timeout_fires_def)
    have d': "\<not> isLoopScheduled ?d'" "activeTasks ?d' = []" "eventQueue ?d' = drop 5 ts"
      "MAX_CONCURRENCY ?d' = 5" "fired ?d' = [take 5 ts]" "listeners ?d' = 1"
      using d empty by simp_all
    from queueLoop_lists [OF d'(1)] d' ts
    have l: "activeTasks (queueLoop ?d') = drop 5 ts" "eventQueue (queueLoop ?d') = []"
      by simp_all
    have "fired (queueLoop ?d') = fired ?d' @ [activeTasks (queueLoop ?d')]"
      using d'(1,6) by (simp add: queueLoop_def fireActiveTask_def hasListeners_def Let_def)
    with l d'(5) tf show ?thesis by simp
  qed
  from b c1 c2 c3 c4 c5 c6 busy drained show ?thesis by simp
qed

theorem seven_tasks_one_completion_witness:
  "fired (completeTask (=) (3::nat) (burst_dispatched [1, 2, 3, 4, 5, 6, 7])) = [[1, 2, 3, 4, 5]] \<and>
   length (activeTasks (completeTask (=) (3::nat) (burst_dispatched [1, 2, 3, 4, 5, 6, 7]))) = 4 \<and>
   eventQueue (completeTask (=) (3::nat) (burst_dispatched [1, 2, 3, 4, 5, 6, 7])) = [6, 7] \<and>
   timers (completeTask (=) (3::nat) (burst_dispatched [1, 2, 3, 4, 5, 6, 7])) = 0 \<and>
   activeTasks (run (=) (burst_dispatched [1, 2, 3, 4, 5, 6, 7]) (map CompleteTask [3, 1, 2, 4, 5 :: nat])) = [] \<and>
   fired (timeout_fires
     (run (=) (burst_dispatched [1, 2, 3, 4, 5, 6, 7]) (map CompleteTask [3, 1, 2, 4, 5 :: nat]))) =
     [[1, 2, 3, 4, 5], [6, 7]] \<and>
   activeTasks (timeout_fires
     (run (=) (burst_dispatched [1, 2, 3, 4, 5, 6, 7]) (map CompleteTask [3, 1, 2, 4, 5 :: nat]))) = [6, 7]"
proof -
  have h1: "length [1, 2, 3, 4, 5, 6, 7 :: nat] = 7" by simp
  have h2: "\<exists>t \<in> set (take 5 [1, 2, 3, 4, 5, 6, 7 :: nat]). (3::nat) = t" by simp
  have h3: "activeTasks (run (=) (burst_dispatched [1, 2, 3, 4, 5, 6, 7])
      (map CompleteTask [3, 1, 2, 4, 5 :: nat])) = []"
    by (simp add: burst_of_seven completeTask_def splice1_def Let_def)
  from seven_tasks_one_completion [where flt = "(=)" and item = "3::nat"
      and items = "[3, 1, 2, 4, 5]", OF h1 h2] h3
  show ?thesis by (simp del: run.simps)
qed

text \<open>
  Claim C2 as stated fails: with the tasks 1 to 7 and task 3 completed, there is no second
  activation event, none with five tasks, and two tasks are pending, not one.
\<close>

theorem seven_tasks_no_second_activation:
  "\<not> (length (fired (timeout_fires (completeTask (=) (3::nat) (burst_dispatched [1, 2, 3, 4, 5, 6, 7])))) = 2 \<and>
      length (last (fired (timeout_fires (completeTask (=) (3::nat) (burst_dispatched [1, 2, 3, 4, 5, 6, 7]))))) = 5 \<and>
      length (eventQueue (timeout_fires (completeTask (=) (3::nat) (burst_dispatched [1, 2, 3, 4, 5, 6, 7])))) = 1) \<and>
   fired (timeout_fires (completeTask (=) (3::nat) (burst_dispatched [1, 2, 3, 4, 5, 6, 7]))) = [[1, 2, 3, 4, 5]] \<and>
   activeTasks (timeout_fires (completeTask (=) (3::nat) (burst_dispatched [1, 2, 3, 4, 5, 6, 7]))) = [1, 2, 4, 5] \<and>
   eventQueue (timeout_fires (completeTask (=) (3::nat) (burst_dispatched [1, 2, 3, 4, 5, 6, 7]))) = [6, 7]"
  by (simp add: burst_of_seven completeTask_def splice1_def timeout_fires_def Let_def)

text \<open>
  The two pending tasks are admitted by the cycle that \<open>completeTask\<close> schedules when the
  active list has become empty.
\<close>

lemma seven_tasks_drained:
  "fired (run (=) (burst_dispatched [1, 2, 3, 4, 5, 6, 7 :: nat])
     [CompleteTask (3::nat), CompleteTask 1, CompleteTask 2, CompleteTask 4, TimeoutFires,
      CompleteTask 5, TimeoutFires]) = [[1, 2, 3, 4, 5], [6, 7]] \<and>
   eventQueue (run (=) (burst_dispatched [1, 2, 3, 4, 5, 6, 7 :: nat])
     [CompleteTask (3::nat), CompleteTask 1, CompleteTask 2, CompleteTask 4, TimeoutFires,
      CompleteTask 5, TimeoutFires]) = []"
  by (simp add: burst_dispatched_def queue_defs completeTask_def splice1_def)

subsection \<open>When an enqueued task is admitted\<close>

text \<open>
  Claim C3, as the code has it. \<open>enqueue\<close> schedules a dispatch cycle only when
  \<open>isDispatching\<close> is false. If the queue is idle in this sense, or a cycle is already
  waiting, and the active and the pending tasks together are fewer than the limit, then the
  cycle that runs next admits the task and fires an event that carries it, with no
  \<open>completeTask\<close> call. If \<open>isDispatching\<close> is true and no cycle is waiting, \<open>enqueue\<close>
  schedules nothing: the task stays pending, and a timer callback changes nothing.
\<close>

theorem enqueue_admitted_when_cycle_pending:
  "(\<not> isLoopScheduled q \<and> hasListeners q \<and> (\<not> isDispatching q \<or> 0 < timers q) \<and>
    real (length (activeTasks q) + length (eventQueue q)) < MAX_CONCURRENCY q \<longrightarrow>
      activeTasks (timeout_fires (enqueue task q)) = activeTasks q @ eventQueue q @ [task] \<and>
      eventQueue (timeout_fires (enqueue task q)) = [] \<and>
      fired (timeout_fires (enqueue task q)) = fired q @ [activeTasks q @ eventQueue q @ [task]]) \<and>
   (isDispatching q \<and> timers q = 0 \<longrightarrow>
      timers (enqueue task q) = 0 \<and>
      timeout_fires (enqueue task q) = enqueue task q \<and>
      eventQueue (enqueue task q) = eventQueue q @ [task] \<and>
      activeTasks (enqueue task q) = activeTasks q \<and>
      fired (enqueue task q) = fired q)"
proof -
  have admitted:
    "activeTasks (timeout_fires (enqueue task q)) = activeTasks q @ eventQueue q @ [task] \<and>
     eventQueue (timeout_fires (enqueue task q)) = [] \<and>
     fired (timeout_fires (enqueue task q)) = fired q @ [activeTasks q @ eventQueue q @ [task]]"
    if a: "\<not> isLoopScheduled q" "hasListeners q" "\<not> isDispatching q \<or> 0 < timers q"
      "real (length (activeTasks q) + length (eventQueue q)) < MAX_CONCURRENCY q"
  proof -
    let ?e = "enqueue task q"
    let ?e' = "?e\<lparr>timers := timers ?e - 1\<rparr>"
    from a(3) have t: "0 < timers ?e" by (auto simp: enqueue_def Let_def)
    have e: "eventQueue ?e' = eventQueue q @ [task]" "activeTasks ?e' = activeTasks q"
      "MAX_CONCURRENCY ?e' = MAX_CONCURRENCY q" "\<not> isLoopScheduled ?e'" "fired ?e' = fired q"
      "listeners ?e' = listeners q"
      using a(1) by (simp_all add: enqueue_def Let_def)
    from a(4) have "real_of_int (int (length (eventQueue q))) <
        MAX_CONCURRENCY q - real (length (activeTasks q))"
      by simp
    then have "int (length (eventQueue q)) < \<lceil>MAX_CONCURRENCY q - real (length (activeTasks q))\<rceil>"
      by (simp only: less_ceiling_iff)
    then have k: "length (eventQueue q @ [task]) \<le>
        nat \<lceil>MAX_CONCURRENCY q - real (length (activeTasks q))\<rceil>"
      by simp
    from t have tf: "timeout_fires ?e = queueLoop ?e'" by (simp add: timeout_fires_def)
    from queueLoop_lists [OF e(4)] e k
    have l: "activeTasks (queueLoop ?e') = activeTasks q @ eventQueue q @ [task]"
      "eventQueue (queueLoop ?e') = []"
      by simp_all
    have "fired (queueLoop ?e') = fired ?e' @ [activeTasks (queueLoop ?e')]"
      using e(4,6) a(2) by (simp add: queueLoop_def fireActiveTask_def hasListeners_def Let_def)
    with l e(5) tf show ?thesis by simp
  qed
  have stays:
    "timers (enqueue task q) = 0 \<and>
     timeout_fires (enqueue task q) = enqueue task q \<and>
     eventQueue (enqueue task q) = eventQueue q @ [task] \<and>
     activeTasks (enqueue task q) = activeTasks q \<and>
     fired (enqueue task q) = fired q"
    if "isDispatching q" "timers q = 0"
    using that by (simp add: enqueue_def timeout_fires_def Let_def)
  from admitted stays show ?thesis by blast
qed

theorem enqueue_admitted_when_cycle_pending_witness:
  "activeTasks (timeout_fires (enqueue (2::nat) (enqueue 1 (onTaskActivation new_EventQueue)))) = [1, 2] \<and>
   fired (timeout_fires (enqueue (2::nat) (enqueue 1 (onTaskActivation new_EventQueue)))) = [[1, 2]] \<and>
   eventQueue (enqueue (2::nat) (burst_dispatched [1])) = [2] \<and>
   timeout_fires (enqueue (2::nat) (burst_dispatched [1])) = enqueue (2::nat) (burst_dispatched [1])"
proof -
  let ?p = "enqueue (1::nat) (onTaskActivation new_EventQueue)"
  have p: "\<not> isLoopScheduled ?p" "hasListeners ?p" "0 < timers ?p"
    "real (length (activeTasks ?p) + length (eventQueue ?p)) < MAX_CONCURRENCY ?p"
    "activeTasks ?p = []" "eventQueue ?p = [1]" "fired ?p = []"
    by (simp_all add: queue_defs)
  have b: "isDispatching (burst_dispatched [1::nat])" "timers (burst_dispatched [1::nat]) = 0"
    "eventQueue (burst_dispatched [1::nat]) = []"
    by (simp_all add: burst_dispatched_def queue_defs)
  from enqueue_admitted_when_cycle_pending [of ?p 2]
    enqueue_admitted_when_cycle_pending [of "burst_dispatched [1::nat]" 2] p b
  show ?thesis by simp
qed

text \<open>
  Claim C3 as stated fails. With one task active out of five, a second task that is
  enqueued is in no activation event: none fires by itself, and the event that
  \<open>reActivation()\<close> fires carries the first task only. And with no task active and five
  pending, a sixth task is not in the next activation event.
\<close>

theorem enqueue_below_limit_not_admitted:
  "real (length (activeTasks (burst_dispatched [1::nat]))) < MAX_CONCURRENCY (burst_dispatched [1::nat]) \<and>
   fired (burst_dispatched [1::nat]) = [[1]] \<and>
   fired (run (=) (burst_dispatched [1::nat]) [Enqueue 2, TimeoutFires :: (nat, nat) call]) = [[1]] \<and>
   fired (run (=) (burst_dispatched [1::nat]) [Enqueue 2, TimeoutFires, ReActivation :: (nat, nat) call]) = [[1], [1]] \<and>
   eventQueue (run (=) (burst_dispatched [1::nat]) [Enqueue 2, TimeoutFires, ReActivation :: (nat, nat) call]) = [2] \<and>
   real (length (activeTasks (run (=) new_EventQueue
      [Subscribe, Enqueue (1::nat), Enqueue 2, Enqueue 3, Enqueue 4, Enqueue 5 :: (nat, nat) call]))) <
     MAX_CONCURRENCY (run (=) new_EventQueue
      [Subscribe, Enqueue (1::nat), Enqueue 2, Enqueue 3, Enqueue 4, Enqueue 5 :: (nat, nat) call]) \<and>
   fired (run (=) new_EventQueue
      [Subscribe, Enqueue (1::nat), Enqueue 2, Enqueue 3, Enqueue 4, Enqueue 5, Enqueue 6,
       TimeoutFires :: (nat, nat) call]) = [[1, 2, 3, 4, 5]]"
  by (simp add: burst_dispatched_def queue_defs)

subsection \<open>After \<open>destroy\<close>\<close>






section \<open>Properties of the column declarations\<close>

subsection \<open>Constraint keywords\<close>

text \<open>
  Claim C10. \<open>genCreateSql()\<close> throws exactly when \<open>_autoIncrement\<close> is set and \<open>_primary\<close>
  is not, with the message \<open>AUTOINCREMENT can only be applied to a primary key\<close>; otherwise
  it returns, in this order, those of PRIMARY KEY, NOT NULL, UNIQUE and AUTOINCREMENT whose
  flag (primary, required, unique, auto-increment) is set on the object it is called on.
\<close>

theorem genCreateSql_keywords:
  "(isl (genCreateSql c) \<longleftrightarrow> autoIncrement (flags_of c) \<and> \<not> primary (flags_of c)) \<and>
   (autoIncrement (flags_of c) \<and> \<not> primary (flags_of c) \<longrightarrow>
      genCreateSql c = Inl (JsError ''AUTOINCREMENT can only be applied to a primary key'')) \<and>
   (\<not> (autoIncrement (flags_of c) \<and> \<not> primary (flags_of c)) \<longrightarrow>
      genCreateSql c =
        Inr (map fst (filter snd
          [(''PRIMARY KEY'', primary (flags_of c)),
           (''NOT NULL'', required (flags_of c)),
           (''UNIQUE'', unique (flags_of c)),
           (''AUTOINCREMENT'', autoIncrement (flags_of c))])))"
  by (simp add: genCreateSql_def genCreateSql_flags_def Let_def)

theorem genCreateSql_keywords_witness:
  "genCreateSql (set_autoIncrement (set_primary integer_column)) =
     Inr [''PRIMARY KEY'', ''NOT NULL'', ''AUTOINCREMENT''] \<and>
   genCreateSql (set_autoIncrement (set_unique text_column)) =
     Inl (JsError ''AUTOINCREMENT can only be applied to a primary key'')"
proof -
  have f: "flags_of (set_autoIncrement (set_primary integer_column)) =
             \<lparr>required = True, unique = False, primary = True, autoIncrement = True\<rparr>"
    "flags_of (set_autoIncrement (set_unique text_column)) =
             \<lparr>required = True, unique = True, primary = False, autoIncrement = True\<rparr>"
    by (simp_all add: set_autoIncrement_def set_primary_def set_unique_def integer_column_def
        text_column_def initial_flags_def)
  from genCreateSql_keywords [of "set_autoIncrement (set_primary integer_column)"]
    genCreateSql_keywords [of "set_autoIncrement (set_unique text_column)"] f
  show ?thesis by simp
qed

text \<open>
  The flags are those of the object itself: on an \<open>optional()\<close> wrapper they are the wrapper's
  own flags, not those of the wrapped column.
\<close>

lemma genCreateSql_optional:
  "genCreateSql (optional (set_unique text_column)) = Inr [''NOT NULL'']"
  by (simp add: genCreateSql_def genCreateSql_flags_def optional_def initial_flags_def)

subsection \<open>Verification of a value\<close>

text \<open>
  Claim C9 at a failing input. A text column with a maximum (or minimum) length, asked to
  verify \<open>null\<close>, reads \<open>value.length\<close> and throws a TypeError instead of returning its list
  of messages; so does the optional wrapper of such a column on \<open>undefined\<close>.
\<close>

theorem text_verify_throws_on_null:
  "verify str_num (set_max 3 text_column) JNull =
     Inl (TypeError ''Cannot read properties of null (reading 'length')'') \<and>
   verify str_num (optional (set_max 3 text_column)) JUndefined =
     Inl (TypeError ''Cannot read properties of undefined (reading 'length')'') \<and>
   verify str_num (set_min 1 text_column) JNull =
     Inl (TypeError ''Cannot read properties of null (reading 'length')'')"
  by (simp add: text_column_def optional_def ColumnText_verify_def text_check_max_def
      text_check_min_def initial_flags_def)

text \<open>Values on which \<open>verify\<close> returns its messages.\<close>

lemma verify_examples:
  "verify str_num (set_max 3 text_column) (JString ''abcd'') = Inr [''value length must less than 3'']"
  "verify str_num text_column JNull = Inr [''value is required'', ''value must be string'']"
  "verify str_num (set_min 12 (set_max 20 integer_column)) (JNumber 7) = Inr [''value must greater than 12'']"
  "verify str_num (ColumnInteger initial_flags None None (Some [1, 2, -3])) JUndefined =
     Inr [''value is required'', ''value must be number'', ''value must be one of 1, 2, -3'']"
  "verify str_num (optional boolean_column) JUndefined = Inr [''value must be boolean'']"
  by (simp_all add: text_column_def integer_column_def boolean_column_def optional_def
      ColumnText_verify_def ColumnInteger_verify_def ColumnBoolean_verify_def ColumnType_verify_def
      text_check_max_def text_check_min_def text_check_enums_def initial_flags_def show_int_def
      digits10.simps Let_def)

text \<open>
  The extent of the defect, on the values followed here: \<open>verify\<close> throws exactly on \<open>null\<close>
  and \<open>undefined\<close> for a column that reads \<open>value.length\<close>. Whenever it returns on \<open>null\<close> or
  \<open>undefined\<close> for a required column, \<open>value is required\<close> is among the messages.
\<close>

lemma text_verify_throws_iff:
  "isl (ColumnText_verify f mx mn en v) \<longleftrightarrow>
     ((mx \<noteq> None \<and> mx \<noteq> Some 0) \<or> (mn \<noteq> None \<and> mn \<noteq> Some 0)) \<and> (v = JNull \<or> v = JUndefined)"
  by (cases v; cases mx; cases mn)
     (auto simp: ColumnText_verify_def text_check_max_def text_check_min_def Let_def)

lemma verify_throws_iff:
  "isl (verify str_num c v) \<longleftrightarrow> reads_length c \<and> (v = JNull \<or> v = JUndefined)"
proof (induction c)
  case (ColumnText f mx mn en)
  show ?case using text_verify_throws_iff [of f mx mn en v] by simp
next
  case (ColumnInteger f mx mn en)
  show ?case by (simp add: ColumnInteger_verify_def Let_def)
next
  case (ColumnBoolean f)
  show ?case by (simp add: ColumnBoolean_verify_def Let_def)
qed simp_all

lemma set_text_checks:
  "set ms \<subseteq> set (text_check_enums en v ms)"
  "text_check_max mx v ms = Inr ms' \<Longrightarrow> set ms \<subseteq> set ms'"
  "text_check_min mn v ms = Inr ms' \<Longrightarrow> set ms \<subseteq> set ms'"
  by (auto simp: text_check_enums_def text_check_max_def text_check_min_def
      split: option.splits if_splits sum.splits)

lemma verify_required_message:
  "verified_required c \<Longrightarrow> v = JNull \<or> v = JUndefined \<Longrightarrow> verify str_num c v = Inr ms \<Longrightarrow>
   ''value is required'' \<in> set ms"
proof (induction c)
  case (ColumnDate f)
  then show ?case by (auto simp: ColumnType_verify_def)
next
  case (ColumnText f mx mn en)
  then have r: "''value is required'' \<in> set (ColumnType_verify f v)"
    by (auto simp: ColumnType_verify_def)
  from ColumnText.prems(3) obtain ms2 ms3 where
    s: "text_check_max mx v (if typeof v \<noteq> ''string'' then ColumnType_verify f v @ [''value must be string'']
                              else ColumnType_verify f v) = Inr ms2"
      "text_check_min mn v ms2 = Inr ms3" "ms = text_check_enums en v ms3"
    by (auto simp: ColumnText_verify_def Let_def split: sum.splits)
  from r have "''value is required'' \<in> set (if typeof v \<noteq> ''string''
      then ColumnType_verify f v @ [''value must be string''] else ColumnType_verify f v)"
    by simp
  with set_text_checks(2) [OF s(1)] have "''value is required'' \<in> set ms2" by blast
  with set_text_checks(3) [OF s(2)] have "''value is required'' \<in> set ms3" by blast
  with set_text_checks(1) [of ms3 en v] s(3) show ?case by blast
next
  case (ColumnInteger f mx mn en)
  then show ?case
    by (auto simp: ColumnInteger_verify_def ColumnType_verify_def Let_def split: option.splits)
next
  case (ColumnBoolean f)
  then show ?case by (auto simp: ColumnBoolean_verify_def ColumnType_verify_def Let_def)
next
  case (ColumnOptional f c)
  then show ?case by simp
qed

end
